theory Spec2Isabelle
  imports Main
begin

section \<open>Basic types\<close>

text \<open>
  Byte addresses are natural numbers and \<open>nullptr\<close> is the address \<open>0\<close>. Pointer
  arithmetic is written as arithmetic on addresses. A failed \<open>assert\<close> ends the
  program (assertions are compiled in, as in a debug build): every function that can
  reach one returns a sum, with the failed assertion (its message as in the source) on
  the left. An operation whose behaviour C++ leaves undefined is an error as well.
\<close>

type_synonym addr = nat

datatype error = AssertionFailed string | UndefinedBehaviour string

section \<open>The destructor registry (class destructors)\<close>

text \<open>
  One entry of the registry. The function pointer \<open>destroy\<close> is a number that
  identifies the type-erased destructor it points to.
\<close>

record destructor =
  dtor_p :: addr
  dtor_size :: nat
  dtor_n :: nat
  dtor_destroy :: nat

text \<open>
  A call of a stored function pointer runs user code, which may re-enter the registry.
  \<open>usr f x\<close> is what the call \<open>f(x)\<close> does to the vector \<open>dtors\<close>; the calls
  themselves are logged in the order in which they are made.
\<close>

type_synonym user_code = "nat \<Rightarrow> addr \<Rightarrow> destructor list \<Rightarrow> destructor list"

type_synonym call_log = "(nat \<times> addr) list"

text \<open>
  \<open>store<T>(p, num)\<close>. The template parameter \<open>T\<close> is given by \<open>sizeof(T)\<close>,
  by whether it is trivially destructible, and by the identity of its destructor.
\<close>

record type_info =
  sizeof :: nat
  trivially_destructible :: bool
  dtor_of :: nat

definition store :: "type_info \<Rightarrow> addr \<Rightarrow> nat \<Rightarrow> destructor list \<Rightarrow> error + destructor list" where
  "store T a num ds =
     (if \<not> (a \<noteq> 0 \<and> num > 0) then Inl (AssertionFailed ''no object to register for destruction'')
      else if \<not> trivially_destructible T
        then Inr (ds @ [\<lparr>dtor_p = a, dtor_size = sizeof T, dtor_n = num, dtor_destroy = dtor_of T\<rparr>])
        else Inr ds)"

text \<open>The inner loop of \<open>run\<close>: the \<open>n\<close> destructor calls of one entry.\<close>

fun destroy_each :: "user_code \<Rightarrow> destructor \<Rightarrow> nat list \<Rightarrow> destructor list \<times> call_log \<Rightarrow> destructor list \<times> call_log" where
  "destroy_each usr d [] st = st"
| "destroy_each usr d (i # is) (ds, calls) =
     destroy_each usr d is
       (usr (dtor_destroy d) (dtor_p d + dtor_size d * i) ds,
        calls @ [(dtor_destroy d, dtor_p d + dtor_size d * i)])"

text \<open>The second loop of \<open>run\<close>, over the local vector \<open>to_destroy\<close>.\<close>

fun destroy_all :: "user_code \<Rightarrow> destructor list \<Rightarrow> destructor list \<times> call_log \<Rightarrow> destructor list \<times> call_log" where
  "destroy_all usr [] st = st"
| "destroy_all usr (d # to_destroy) st =
     destroy_all usr to_destroy (destroy_each usr d [0..<dtor_n d] st)"

text \<open>
  The first loop of \<open>run\<close>: it walks \<open>dtors\<close>, moves every entry with
  \<open>begin <= it->p && it->p < end\<close> to \<open>to_destroy\<close> and erases it. The result is
  \<open>to_destroy\<close>, what is left of \<open>dtors\<close>, and \<open>ret\<close>.
\<close>

fun move_range :: "addr \<Rightarrow> addr \<Rightarrow> destructor list \<Rightarrow> destructor list \<times> bool \<Rightarrow> destructor list \<times> destructor list \<times> bool" where
  "move_range b e [] (to_destroy, ret) = (to_destroy, [], ret)"
| "move_range b e (it # rest) (to_destroy, ret) =
     (if b \<le> dtor_p it \<and> dtor_p it < e
      then move_range b e rest (to_destroy @ [it], True)
      else (case move_range b e rest (to_destroy, ret) of
              (td, kept, r) \<Rightarrow> (td, it # kept, r)))"

definition run :: "user_code \<Rightarrow> addr \<Rightarrow> addr \<Rightarrow> destructor list \<Rightarrow> error + (bool \<times> destructor list \<times> call_log)" where
  "run usr b e ds =
     (if \<not> b < e then Inl (AssertionFailed ''begin must precede end'')
      else (case move_range b e ds ([], False) of
              (to_destroy, kept, ret) \<Rightarrow>
                (case destroy_all usr to_destroy (kept, []) of
                   (ds', calls) \<Rightarrow> Inr (ret, ds', calls))))"

section \<open>The page (class gpage)\<close>

text \<open>
  Modelled from the spec: the header \<open>gpage.h\<close> with the classes \<open>gpage\<close> and
  \<open>bitflags\<close> is not among the sources. A page is a contiguous byte region
  \<open>[storage, storage + total_size)\<close> divided into locations of \<open>min_alloc\<close> bytes; for
  each location it records whether it is free, the start of an allocation or the middle
  of one.
\<close>

datatype gpage_find_result =
  not_in_range | in_range_unallocated | in_range_allocated_middle | in_range_allocated_start

datatype location_state = Unallocated | AllocatedStart | AllocatedMiddle

record contains_info_ret =
  found :: gpage_find_result
  start_location :: nat

record location_info_ret =
  is_start :: bool
  pointer :: addr

record gpage =
  storage :: addr
  total_size :: nat
  min_alloc :: nat
  state :: "location_state list"

definition gpage_new :: "addr \<Rightarrow> nat \<Rightarrow> nat \<Rightarrow> gpage" where
  "gpage_new a sz chunk =
     \<lparr>storage = a, total_size = sz, min_alloc = chunk,
      state = replicate (sz div chunk) Unallocated\<rparr>"

definition locations :: "gpage \<Rightarrow> nat" where
  "locations g = length (state g)"

definition state_at :: "gpage \<Rightarrow> nat \<Rightarrow> location_state" where
  "state_at g i = (if i < length (state g) then state g ! i else Unallocated)"

definition contains :: "gpage \<Rightarrow> addr \<Rightarrow> bool" where
  "contains g a = (storage g \<le> a \<and> a < storage g + total_size g)"

text \<open>The start of the allocation that location \<open>i\<close> is in the middle of.\<close>

fun start_of :: "gpage \<Rightarrow> nat \<Rightarrow> nat" where
  "start_of g 0 = 0"
| "start_of g (Suc i) = (if state_at g (Suc i) = AllocatedStart then Suc i else start_of g i)"

definition contains_info :: "gpage \<Rightarrow> addr \<Rightarrow> contains_info_ret" where
  "contains_info g a =
     (if \<not> contains g a then \<lparr>found = not_in_range, start_location = 0\<rparr>
      else let i = (a - storage g) div min_alloc g in
        (case state_at g i of
           Unallocated \<Rightarrow> \<lparr>found = in_range_unallocated, start_location = i\<rparr>
         | AllocatedStart \<Rightarrow> \<lparr>found = in_range_allocated_start, start_location = i\<rparr>
         | AllocatedMiddle \<Rightarrow> \<lparr>found = in_range_allocated_middle, start_location = start_of g i\<rparr>))"

definition location_info :: "gpage \<Rightarrow> nat \<Rightarrow> location_info_ret" where
  "location_info g i =
     \<lparr>is_start = (state_at g i = AllocatedStart), pointer = storage g + i * min_alloc g\<rparr>"

text \<open>\<open>deallocate\<close> frees the allocation that starts at the given address.\<close>

fun free_middles :: "location_state list \<Rightarrow> location_state list" where
  "free_middles [] = []"
| "free_middles (x # xs) = (if x = AllocatedMiddle then Unallocated # free_middles xs else x # xs)"

definition deallocate :: "gpage \<Rightarrow> addr \<Rightarrow> gpage" where
  "deallocate g a =
     (let i = (a - storage g) div min_alloc g in
      if contains g a \<and> state_at g i = AllocatedStart
      then g\<lparr>state := take i (state g) @ Unallocated # free_middles (drop (Suc i) (state g))\<rparr>
      else g)"

text \<open>
  \<open>allocate<T>(n)\<close> of a page returns the address of a run of free locations that
  holds \<open>n\<close> objects of \<open>T\<close>, or null when the page has none. The functions of the heap
  take the page's allocator as a parameter of this type; \<open>first_fit\<close> is the allocator
  that takes the first run of free locations that is long enough, and returns null for
  a request of no bytes.
\<close>

type_synonym page_allocate = "gpage \<Rightarrow> type_info \<Rightarrow> nat \<Rightarrow> addr \<times> gpage"

definition chunks_needed :: "gpage \<Rightarrow> type_info \<Rightarrow> nat \<Rightarrow> nat" where
  "chunks_needed g T n = (sizeof T * n + min_alloc g - 1) div min_alloc g"

definition first_fit :: page_allocate where
  "first_fit g T n =
     (let k = chunks_needed g T n in
      if k = 0 then (0, g)
      else case find (\<lambda>i. \<forall>j \<in> set [i..<i + k]. state_at g j = Unallocated \<and> j < locations g)
             [0..<locations g] of
        None \<Rightarrow> (0, g)
      | Some i \<Rightarrow>
          (storage g + i * min_alloc g,
           g\<lparr>state := take i (state g) @ AllocatedStart # replicate (k - 1) AllocatedMiddle
                         @ drop (i + k) (state g)\<rparr>))"

text \<open>Modelled from the spec: the bit vector \<open>bitflags\<close>, one bit per location.\<close>

definition get_bit :: "bool list \<Rightarrow> nat \<Rightarrow> bool" where
  "get_bit bs i = (i < length bs \<and> bs ! i)"

definition set_bit :: "bool list \<Rightarrow> nat \<Rightarrow> bool \<Rightarrow> bool list" where
  "set_bit bs i v = bs[i := v]"

definition set_all :: "bool list \<Rightarrow> bool \<Rightarrow> bool list" where
  "set_all bs v = map (\<lambda>_. v) bs"

section \<open>The size of a new page (constructor of dhpage)\<close>

text \<open>
  The first argument of the page constructor is
  \<open>std::max<size_t>(sizeof(Hint) * n * 2.62, 4096)\<close>: the product \<open>sizeof(Hint) * n\<close>
  is computed in \<open>size_t\<close> (64 bits, wrapping), converted to \<open>double\<close>, multiplied by the
  \<open>double\<close> nearest to 2.62, and the result is converted back to \<open>size_t\<close> by truncation.
  A finite non-negative \<open>double\<close> is a natural number times a power of two with at most
  53 significant bits; \<open>round53\<close> rounds a natural number to the nearest such number,
  ties to even, as the conversion and the multiplication do.
\<close>

fun bitlen :: "nat \<Rightarrow> nat" where
  "bitlen n = (if n = 0 then 0 else Suc (bitlen (n div 2)))"

definition round53 :: "nat \<Rightarrow> nat" where
  "round53 N =
     (let s = bitlen N - 53; q = N div 2 ^ s; r = N mod 2 ^ s in
      if s = 0 then N
      else (if 2 ^ (s - 1) < r \<or> (r = 2 ^ (s - 1) \<and> odd q) then q + 1 else q) * 2 ^ s)"

text \<open>The \<open>double\<close> nearest to 2.62 is \<open>double_262 / 2 ^ 51\<close> (0x1.4f5c28f5c28f6p+1).\<close>

definition double_262 :: nat where
  "double_262 = 5899715511855350"

text \<open>
  \<open>times_262 k\<close> is the value of \<open>k * 2.62\<close> for a \<open>size_t k\<close>, in units of
  \<open>2 ^ - 51\<close>. Converting a \<open>double\<close> that is \<open>2 ^ 64\<close> or more to \<open>size_t\<close> is undefined.
\<close>

definition times_262 :: "nat \<Rightarrow> nat" where
  "times_262 k = round53 (round53 k * double_262)"

definition page_total_size :: "type_info \<Rightarrow> nat \<Rightarrow> error + nat" where
  "page_total_size Hint n =
     (let x = times_262 ((sizeof Hint * n) mod 2 ^ 64) div 2 ^ 51 in
      if x < 2 ^ 64 then Inr (max x 4096)
      else Inl (UndefinedBehaviour ''double out of the range of size_t''))"

definition page_min_alloc :: "type_info \<Rightarrow> nat" where
  "page_min_alloc Hint = max (sizeof Hint) 4"

section \<open>The deferred heap (class deferred_heap)\<close>

text \<open>
  A \<open>nonroot\<close> holds the address of a \<open>deferred_ptr\<close> that lives inside a page,
  and its level. A tracked pointer is identified by its own address; \<open>raw h a\<close> is
  the member \<open>p\<close> of the \<open>deferred_ptr_void\<close> at address \<open>a\<close>. The state is that
  memory together with the data members of \<open>deferred_heap\<close>. The set \<open>roots\<close> is the
  list of its elements in the order in which the set is iterated.
\<close>

record nonroot =
  ptr :: addr
  level :: nat

record dhpage =
  page :: gpage
  live_starts :: "bool list"
  deferred_ptrs :: "nonroot list"

record heap_state =
  pages :: "dhpage list"
  roots :: "addr list"
  dtors :: "destructor list"
  is_destroying :: bool
  collect_before_expand :: bool
  raw :: "addr \<Rightarrow> addr"

text \<open>
  What the heap does that the rest of the program can observe: calls of user
  constructors and destructors, tracked pointers it resets, storage it gives back to a
  page. The call of a destructor is logged with the heap that the destructor finds when
  it is entered.
\<close>

datatype event =
  Construct addr | Destroy nat addr heap_state | Reset addr | Deallocate addr

text \<open>
  The constructor of \<open>dhpage\<close>. The storage of the page comes from \<open>new byte[]\<close>:
  \<open>new_storage sz\<close> is the address at which the run time places \<open>sz\<close> bytes.
\<close>

definition dhpage_new :: "type_info \<Rightarrow> nat \<Rightarrow> (nat \<Rightarrow> addr) \<Rightarrow> error + dhpage" where
  "dhpage_new Hint n new_storage =
     (case page_total_size Hint n of
        Inl e \<Rightarrow> Inl e
      | Inr sz \<Rightarrow>
          (let g = gpage_new (new_storage sz) sz (page_min_alloc Hint) in
           Inr \<lparr>page = g, live_starts = replicate (locations g) False, deferred_ptrs = []\<rparr>))"

subsection \<open>enregister and deregister\<close>

text \<open>\<open>find_dhpage_of\<close> followed by \<open>push_back\<close> on the page found, if there is one.\<close>

fun push_nonroot :: "dhpage list \<Rightarrow> addr \<Rightarrow> dhpage list option" where
  "push_nonroot [] a = None"
| "push_nonroot (pg # pgs) a =
     (if contains (page pg) a
      then Some (pg\<lparr>deferred_ptrs := deferred_ptrs pg @ [\<lparr>ptr = a, level = 0\<rparr>]\<rparr> # pgs)
      else map_option (\<lambda>pgs'. pg # pgs') (push_nonroot pgs a))"

definition enregister :: "addr \<Rightarrow> heap_state \<Rightarrow> error + heap_state" where
  "enregister a h =
     (if is_destroying h
      then Inl (AssertionFailed
        ''cannot allocate new objects on a deferred_heap that is being destroyed'')
      else (case push_nonroot (pages h) a of
              Some pgs \<Rightarrow> Inr (h\<lparr>pages := pgs\<rparr>)
            | None \<Rightarrow> Inr (h\<lparr>roots := List.insert a (roots h)\<rparr>)))"

text \<open>\<open>find_if\<close> over the reversed vector: the index of the last entry for \<open>a\<close>.\<close>

fun find_last :: "addr \<Rightarrow> nonroot list \<Rightarrow> nat option" where
  "find_last a [] = None"
| "find_last a (x # xs) =
     (case find_last a xs of
        Some j \<Rightarrow> Some (Suc j)
      | None \<Rightarrow> if ptr x = a then Some 0 else None)"

fun erase_nonroot :: "dhpage list \<Rightarrow> addr \<Rightarrow> dhpage list option" where
  "erase_nonroot [] a = None"
| "erase_nonroot (pg # pgs) a =
     (case find_last a (deferred_ptrs pg) of
        Some j \<Rightarrow>
          Some (pg\<lparr>deferred_ptrs :=
                  butlast ((deferred_ptrs pg)[j := last (deferred_ptrs pg)])\<rparr> # pgs)
      | None \<Rightarrow> map_option (\<lambda>pgs'. pg # pgs') (erase_nonroot pgs a))"

definition deregister :: "addr \<Rightarrow> heap_state \<Rightarrow> error + heap_state" where
  "deregister a h =
     (if is_destroying h then Inr h
      else if a \<in> set (roots h) then Inr (h\<lparr>roots := removeAll a (roots h)\<rparr>)
      else (case erase_nonroot (pages h) a of
              Some pgs \<Rightarrow> Inr (h\<lparr>pages := pgs\<rparr>)
            | None \<Rightarrow> Inl (AssertionFailed
                ''attempt to deregister an unregistered deferred_ptr'')))"

subsection \<open>Tracked pointers (class deferred_ptr_void)\<close>

text \<open>
  The constructor \<open>deferred_ptr_void(p_)\<close> of the object at address \<open>a\<close>, its
  destructor, its assignment and \<open>reset\<close>. \<open>deferred_ptr<T>::pointer_to(t)\<close> constructs
  its result, the object at address \<open>a\<close>, from the address \<open>t\<close> of its argument.
\<close>

definition ptr_construct :: "addr \<Rightarrow> addr \<Rightarrow> heap_state \<Rightarrow> error + heap_state" where
  "ptr_construct a v h = enregister a (h\<lparr>raw := (raw h)(a := v)\<rparr>)"

definition ptr_destroy :: "addr \<Rightarrow> heap_state \<Rightarrow> error + heap_state" where
  "ptr_destroy a h = deregister a h"

definition ptr_assign :: "addr \<Rightarrow> addr \<Rightarrow> heap_state \<Rightarrow> heap_state" where
  "ptr_assign a v h = h\<lparr>raw := (raw h)(a := v)\<rparr>"

definition ptr_reset :: "addr \<Rightarrow> heap_state \<Rightarrow> heap_state" where
  "ptr_reset a h = h\<lparr>raw := (raw h)(a := 0)\<rparr>"

definition pointer_to :: "addr \<Rightarrow> addr \<Rightarrow> heap_state \<Rightarrow> error + heap_state" where
  "pointer_to a t h = ptr_construct a t h"

subsection \<open>mark\<close>

text \<open>The inner loop of \<open>mark\<close>, over the \<open>deferred_ptrs\<close> of the page that was hit.\<close>

fun mark_ptrs :: "gpage \<Rightarrow> nat \<Rightarrow> nat \<Rightarrow> nonroot list \<Rightarrow> error + nonroot list" where
  "mark_ptrs g sl lvl [] = Inr []"
| "mark_ptrs g sl lvl (dp # dps) =
     (let dp_where = contains_info g (ptr dp) in
      if \<not> (found dp_where = in_range_allocated_middle
             \<or> found dp_where = in_range_allocated_start)
      then Inl (AssertionFailed ''points to unallocated memory'')
      else (case mark_ptrs g sl lvl dps of
              Inl e \<Rightarrow> Inl e
            | Inr dps' \<Rightarrow>
                Inr ((if start_location dp_where = sl \<and> level dp = 0
                      then dp\<lparr>level := lvl\<rparr> else dp) # dps')))"

text \<open>The outer loop of \<open>mark\<close>, over the pages, left at the first page that is hit.\<close>

fun mark_pages :: "addr \<Rightarrow> nat \<Rightarrow> dhpage list \<Rightarrow> error + dhpage list" where
  "mark_pages a lvl [] = Inr []"
| "mark_pages a lvl (pg # pgs) =
     (let wh = contains_info (page pg) a in
      if found wh = in_range_unallocated
      then Inl (AssertionFailed ''must not point to unallocated memory'')
      else if found wh \<noteq> not_in_range
      then (case mark_ptrs (page pg) (start_location wh) lvl (deferred_ptrs pg) of
              Inl e \<Rightarrow> Inl e
            | Inr dps \<Rightarrow>
                Inr (pg\<lparr>live_starts := set_bit (live_starts pg) (start_location wh) True,
                        deferred_ptrs := dps\<rparr> # pgs))
      else (case mark_pages a lvl pgs of
              Inl e \<Rightarrow> Inl e
            | Inr pgs' \<Rightarrow> Inr (pg # pgs')))"

definition mark :: "addr \<Rightarrow> nat \<Rightarrow> heap_state \<Rightarrow> error + heap_state" where
  "mark a lvl h =
     (if a = 0 then Inr h
      else (case mark_pages a lvl (pages h) of
              Inl e \<Rightarrow> Inl e
            | Inr pgs \<Rightarrow> Inr (h\<lparr>pages := pgs\<rparr>)))"

subsection \<open>collect\<close>

text \<open>Phase 1: reset all the mark bits and the levels.\<close>

definition reset_marks :: "heap_state \<Rightarrow> heap_state" where
  "reset_marks h =
     h\<lparr>pages := map (\<lambda>pg. pg\<lparr>live_starts := set_all (live_starts pg) False,
                                deferred_ptrs := map (\<lambda>dp. dp\<lparr>level := 0\<rparr>) (deferred_ptrs pg)\<rparr>)
                     (pages h)\<rparr>"

text \<open>Phase 2, first loop: mark what the roots point to, at level 1.\<close>

fun mark_roots :: "addr list \<Rightarrow> nat \<Rightarrow> heap_state \<Rightarrow> error + heap_state" where
  "mark_roots [] lvl h = Inr h"
| "mark_roots (r # rs) lvl h =
     (case mark (raw h r) lvl h of
        Inl e \<Rightarrow> Inl e
      | Inr h' \<Rightarrow> mark_roots rs lvl h')"

text \<open>
  Phase 2, one pass of the \<open>while\<close> loop at the (already incremented) level \<open>lvl\<close>. The
  two \<open>for\<close> loops walk the pages and the \<open>deferred_ptrs\<close> of each page by position, and
  read each entry from the current state, since \<open>mark\<close> changes levels while they run.
  The flag is \<open>done\<close>.
\<close>

fun mark_level_ptrs :: "nat \<Rightarrow> nat \<Rightarrow> nat list \<Rightarrow> bool \<times> heap_state \<Rightarrow> error + bool \<times> heap_state" where
  "mark_level_ptrs lvl k [] st = Inr st"
| "mark_level_ptrs lvl k (j # js) (dn, h) =
     (let dp = deferred_ptrs (pages h ! k) ! j in
      if level dp = lvl - 1
      then (case mark (raw h (ptr dp)) lvl h of
              Inl e \<Rightarrow> Inl e
            | Inr h' \<Rightarrow> mark_level_ptrs lvl k js (False, h'))
      else mark_level_ptrs lvl k js (dn, h))"

fun mark_level_pages :: "nat \<Rightarrow> nat list \<Rightarrow> bool \<times> heap_state \<Rightarrow> error + bool \<times> heap_state" where
  "mark_level_pages lvl [] st = Inr st"
| "mark_level_pages lvl (k # ks) (dn, h) =
     (case mark_level_ptrs lvl k [0..<length (deferred_ptrs (pages h ! k))] (dn, h) of
        Inl e \<Rightarrow> Inl e
      | Inr st' \<Rightarrow> mark_level_pages lvl ks st')"

definition mark_level :: "nat \<Rightarrow> heap_state \<Rightarrow> error + bool \<times> heap_state" where
  "mark_level lvl h = mark_level_pages lvl [0..<length (pages h)] (True, h)"

text \<open>
  The \<open>while (!done)\<close> loop, entered with the local variable \<open>level\<close>; it returns the
  value of \<open>level\<close> at the exit, which is the number of passes plus the value at entry.
\<close>

function mark_loop :: "nat \<Rightarrow> heap_state \<Rightarrow> error + nat \<times> heap_state" where
  "mark_loop lvl h =
     (case mark_level (lvl + 1) h of
        Inl e \<Rightarrow> Inl e
      | Inr (dn, h') \<Rightarrow> if dn then Inr (lvl + 1, h') else mark_loop (lvl + 1) h')"
  by pat_completeness auto

text \<open>Phase 3: reset all unreached tracked pointers to null.\<close>

fun reset_ptrs :: "nonroot list \<Rightarrow> (addr \<Rightarrow> addr) \<times> event list \<Rightarrow> (addr \<Rightarrow> addr) \<times> event list" where
  "reset_ptrs [] st = st"
| "reset_ptrs (dp # dps) (m, evs) =
     (if level dp = 0 then reset_ptrs dps (m(ptr dp := 0), evs @ [Reset (ptr dp)])
      else reset_ptrs dps (m, evs))"

fun reset_pages :: "dhpage list \<Rightarrow> (addr \<Rightarrow> addr) \<times> event list \<Rightarrow> (addr \<Rightarrow> addr) \<times> event list" where
  "reset_pages [] st = st"
| "reset_pages (pg # pgs) st = reset_pages pgs (reset_ptrs (deferred_ptrs pg) st)"

subsection \<open>User destructors\<close>

text \<open>
  A destructor that the heap calls is user code, and it re-enters the heap through the
  tracked pointers it works with: the destructor of every \<open>deferred_ptr\<close> member of the
  object deregisters that member, and the body of a destructor may create, copy, assign,
  reset and destroy tracked pointers. These are the operations of a destructor in the
  model: a null or copied \<open>deferred_ptr\<close> constructed at an address, the result of
  \<open>pointer_to\<close> constructed at an address, assignment from another tracked pointer,
  \<open>reset\<close>, and the destructor of a \<open>deferred_ptr\<close>.
\<close>

datatype ptr_op =
    NullPtr addr
  | CopyPtr addr addr
  | PointerTo addr addr
  | AssignPtr addr addr
  | ResetPtr addr
  | DestroyPtr addr

fun perform_ptr :: "ptr_op \<Rightarrow> heap_state \<Rightarrow> error + heap_state" where
  "perform_ptr (NullPtr a) h = ptr_construct a 0 h"
| "perform_ptr (CopyPtr a b) h = ptr_construct a (raw h b) h"
| "perform_ptr (PointerTo a t) h = pointer_to a t h"
| "perform_ptr (AssignPtr a b) h = Inr (ptr_assign a (raw h b) h)"
| "perform_ptr (ResetPtr a) h = Inr (ptr_reset a h)"
| "perform_ptr (DestroyPtr a) h = ptr_destroy a h"

fun perform_ptrs :: "ptr_op list \<Rightarrow> heap_state \<Rightarrow> error + heap_state" where
  "perform_ptrs [] h = Inr h"
| "perform_ptrs (op # ops) h =
     (case perform_ptr op h of
        Inl e \<Rightarrow> Inl e
      | Inr h' \<Rightarrow> perform_ptrs ops h')"

text \<open>
  \<open>usr f x h\<close> is what the call \<open>f(x)\<close> of a stored destructor does when it finds the
  heap \<open>h\<close>: the operations on tracked pointers that it performs, in their order. The
  destructors of the model do not allocate and do not start a collection.
\<close>

type_synonym dtor_code = "nat \<Rightarrow> addr \<Rightarrow> heap_state \<Rightarrow> ptr_op list"

text \<open>
  \<open>destroy_objects\<close> is \<open>dtors.run(start, end)\<close>, as it acts on the heap: the first loop
  of \<open>run\<close> takes the entries of the range out of the registry, and then the two nested
  loops call the destructors, each of which works on the heap that the calls before it
  have left.
\<close>

fun destroy_each_in :: "dtor_code \<Rightarrow> destructor \<Rightarrow> nat list \<Rightarrow> heap_state \<times> event list \<Rightarrow> error + heap_state \<times> event list" where
  "destroy_each_in usr d [] st = Inr st"
| "destroy_each_in usr d (i # is) (h, evs) =
     (case perform_ptrs (usr (dtor_destroy d) (dtor_p d + dtor_size d * i) h) h of
        Inl e \<Rightarrow> Inl e
      | Inr h' \<Rightarrow>
          destroy_each_in usr d is
            (h', evs @ [Destroy (dtor_destroy d) (dtor_p d + dtor_size d * i) h]))"

fun destroy_all_in :: "dtor_code \<Rightarrow> destructor list \<Rightarrow> heap_state \<times> event list \<Rightarrow> error + heap_state \<times> event list" where
  "destroy_all_in usr [] st = Inr st"
| "destroy_all_in usr (d # to_destroy) st =
     (case destroy_each_in usr d [0..<dtor_n d] st of
        Inl e \<Rightarrow> Inl e
      | Inr st' \<Rightarrow> destroy_all_in usr to_destroy st')"

definition destroy_objects :: "dtor_code \<Rightarrow> addr \<Rightarrow> addr \<Rightarrow> heap_state \<Rightarrow> error + (bool \<times> heap_state \<times> event list)" where
  "destroy_objects usr b e h =
     (if \<not> b < e then Inl (AssertionFailed ''begin must precede end'')
      else (case move_range b e (dtors h) ([], False) of
              (to_destroy, kept, ret) \<Rightarrow>
                (case destroy_all_in usr to_destroy (h\<lparr>dtors := kept\<rparr>, []) of
                   Inl err \<Rightarrow> Inl err
                 | Inr (h', evs) \<Rightarrow> Inr (ret, h', evs))))"

text \<open>Phase 4: the search for the end of the allocation that starts at a location.\<close>

fun find_end :: "gpage \<Rightarrow> nat list \<Rightarrow> addr" where
  "find_end g [] = pointer (location_info g (locations g))"
| "find_end g (end_i # rest) =
     (if is_start (location_info g end_i) then pointer (location_info g end_i)
      else find_end g rest)"

text \<open>\<open>pg.page.deallocate(p)\<close> for the page \<open>pg\<close> with index \<open>k\<close>.\<close>

definition deallocate_in :: "nat \<Rightarrow> addr \<Rightarrow> heap_state \<Rightarrow> heap_state" where
  "deallocate_in k a h =
     h\<lparr>pages := (pages h)[k := (pages h ! k)\<lparr>page := deallocate (page (pages h ! k)) a\<rparr>]\<rparr>"

text \<open>
  Phase 4, the loop over the locations of the page with index \<open>k\<close>. The page is read
  from the heap at every step, as the destructors that have run may have changed it.
\<close>

fun sweep_locations :: "dtor_code \<Rightarrow> nat \<Rightarrow> nat list \<Rightarrow> heap_state \<times> event list \<Rightarrow> error + heap_state \<times> event list" where
  "sweep_locations usr k [] st = Inr st"
| "sweep_locations usr k (i # is) (h, evs) =
     (let pg = pages h ! k; start = location_info (page pg) i in
      if is_start start \<and> \<not> get_bit (live_starts pg) i
      then (case destroy_objects usr (pointer start)
                   (find_end (page pg) [i + 1..<locations (page pg)]) h of
              Inl e \<Rightarrow> Inl e
            | Inr (r, h', devs) \<Rightarrow>
                sweep_locations usr k is
                  (deallocate_in k (pointer start) h',
                   evs @ devs @ [Deallocate (pointer start)]))
      else sweep_locations usr k is (h, evs))"

fun sweep_pages :: "dtor_code \<Rightarrow> nat list \<Rightarrow> heap_state \<times> event list \<Rightarrow> error + heap_state \<times> event list" where
  "sweep_pages usr [] st = Inr st"
| "sweep_pages usr (k # ks) (h, evs) =
     (case sweep_locations usr k [0..<locations (page (pages h ! k))] (h, evs) of
        Inl e \<Rightarrow> Inl e
      | Inr st' \<Rightarrow> sweep_pages usr ks st')"

text \<open>Phases 1 and 2 together; the result carries the final value of \<open>level\<close>.\<close>

definition mark_phase :: "heap_state \<Rightarrow> error + nat \<times> heap_state" where
  "mark_phase h =
     (case mark_roots (roots (reset_marks h)) 1 (reset_marks h) of
        Inl e \<Rightarrow> Inl e
      | Inr h' \<Rightarrow> mark_loop 1 h')"

text \<open>Phase 3 and phase 4, from the state that marking has left.\<close>

definition reset_phase :: "heap_state \<Rightarrow> heap_state \<times> event list" where
  "reset_phase h =
     (case reset_pages (pages h) (raw h, []) of (m, evs) \<Rightarrow> (h\<lparr>raw := m\<rparr>, evs))"

definition sweep_phase :: "dtor_code \<Rightarrow> heap_state \<Rightarrow> error + heap_state \<times> event list" where
  "sweep_phase usr h = sweep_pages usr [0..<length (pages h)] (h, [])"

definition collect :: "dtor_code \<Rightarrow> heap_state \<Rightarrow> error + heap_state \<times> event list" where
  "collect usr h =
     (case mark_phase h of
        Inl e \<Rightarrow> Inl e
      | Inr (lvl, h2) \<Rightarrow>
          (case reset_phase h2 of
             (h3, resets) \<Rightarrow>
               (case sweep_phase usr h3 of
                  Inl e \<Rightarrow> Inl e
                | Inr (h4, evs) \<Rightarrow> Inr (h4, resets @ evs))))"

subsection \<open>allocate, construct, make\<close>

fun allocate_from_existing_pages :: "page_allocate \<Rightarrow> type_info \<Rightarrow> nat \<Rightarrow> dhpage list \<Rightarrow> addr \<times> dhpage list" where
  "allocate_from_existing_pages alloc T n [] = (0, [])"
| "allocate_from_existing_pages alloc T n (pg # pgs) =
     (case alloc (page pg) T n of
        (a, g) \<Rightarrow>
          if a \<noteq> 0 then (a, pg\<lparr>page := g\<rparr> # pgs)
          else (case allocate_from_existing_pages alloc T n pgs of
                  (a', pgs') \<Rightarrow> (a', pg\<lparr>page := g\<rparr> # pgs')))"

text \<open>
  The three steps of \<open>allocate<T>(n)\<close>: existing pages; a collection and a second try
  if \<open>collect_before_expand\<close> is set; a new page. The result is a \<open>deferred_ptr<T>\<close>
  constructed from the raw pointer: \<open>ret\<close> is the address of that object, the one
  the caller receives.
\<close>

definition allocate_retry :: "dtor_code \<Rightarrow> page_allocate \<Rightarrow> type_info \<Rightarrow> nat \<Rightarrow> addr \<times> heap_state \<Rightarrow> error + addr \<times> heap_state \<times> event list" where
  "allocate_retry usr alloc T n st =
     (case st of
        (a, h) \<Rightarrow>
          if a = 0 \<and> collect_before_expand h
          then (case collect usr h of
                  Inl e \<Rightarrow> Inl e
                | Inr (h', evs) \<Rightarrow>
                    (case allocate_from_existing_pages alloc T n (pages h') of
                       (a', pgs) \<Rightarrow> Inr (a', h'\<lparr>pages := pgs\<rparr>, evs)))
          else Inr (a, h, []))"

definition allocate_expand :: "page_allocate \<Rightarrow> (heap_state \<Rightarrow> nat \<Rightarrow> addr) \<Rightarrow> type_info \<Rightarrow> nat \<Rightarrow> addr \<times> heap_state \<Rightarrow> error + addr \<times> heap_state" where
  "allocate_expand alloc new_storage T n st =
     (case st of
        (a, h) \<Rightarrow>
          if a = 0
          then (case dhpage_new T n (new_storage h) of
                  Inl e \<Rightarrow> Inl e
                | Inr pg \<Rightarrow>
                    (case alloc (page pg) T n of
                       (a', g) \<Rightarrow> Inr (a', h\<lparr>pages := pages h @ [pg\<lparr>page := g\<rparr>]\<rparr>)))
          else Inr (a, h))"

definition allocate :: "dtor_code \<Rightarrow> page_allocate \<Rightarrow> (heap_state \<Rightarrow> nat \<Rightarrow> addr) \<Rightarrow> type_info \<Rightarrow> nat \<Rightarrow> addr \<Rightarrow> heap_state \<Rightarrow> error + addr \<times> heap_state \<times> event list" where
  "allocate usr alloc new_storage T n ret h =
     (case allocate_from_existing_pages alloc T n (pages h) of
        (a1, pgs) \<Rightarrow>
          (case allocate_retry usr alloc T n (a1, h\<lparr>pages := pgs\<rparr>) of
             Inl e \<Rightarrow> Inl e
           | Inr (a2, h2, evs) \<Rightarrow>
               (case allocate_expand alloc new_storage T n (a2, h2) of
                  Inl e \<Rightarrow> Inl e
                | Inr (a3, h3) \<Rightarrow>
                    if a3 = 0
                    then Inl (AssertionFailed
                      ''failed to allocate but didn't throw an exception'')
                    else (case ptr_construct ret a3 h3 of
                            Inl e \<Rightarrow> Inl e
                          | Inr h4 \<Rightarrow> Inr (a3, h4, evs)))))"

text \<open>
  \<open>construct\<close> and \<open>construct_array\<close>. Each placement new is an event at the address
  that is passed to it.
\<close>

definition construct :: "dtor_code \<Rightarrow> type_info \<Rightarrow> addr \<Rightarrow> heap_state \<Rightarrow> error + heap_state \<times> event list" where
  "construct usr T a h =
     (if a = 0 then Inl (AssertionFailed ''construction at null location'')
      else (case destroy_objects usr a (a + sizeof T) h of
              Inl e \<Rightarrow> Inl e
            | Inr (r, h', evs) \<Rightarrow>
                (case store T a 1 (dtors h') of
                   Inl e \<Rightarrow> Inl e
                 | Inr ds' \<Rightarrow> Inr (h'\<lparr>dtors := ds'\<rparr>, evs @ [Construct a]))))"

fun construct_each :: "addr \<Rightarrow> nat list \<Rightarrow> event list \<Rightarrow> event list" where
  "construct_each a [] evs = evs"
| "construct_each a (i # is) evs = construct_each a is (evs @ [Construct a])"

definition construct_array :: "dtor_code \<Rightarrow> type_info \<Rightarrow> addr \<Rightarrow> nat \<Rightarrow> heap_state \<Rightarrow> error + heap_state \<times> event list" where
  "construct_array usr T a n h =
     (if a = 0 then Inl (AssertionFailed ''construction at null location'')
      else (case destroy_objects usr a (a + n * sizeof T) h of
              Inl e \<Rightarrow> Inl e
            | Inr (r, h', evs) \<Rightarrow>
                (case store T a n (dtors h') of
                   Inl e \<Rightarrow> Inl e
                 | Inr ds' \<Rightarrow> Inr (h'\<lparr>dtors := ds'\<rparr>, construct_each a [0..<n] evs))))"

definition make :: "dtor_code \<Rightarrow> page_allocate \<Rightarrow> (heap_state \<Rightarrow> nat \<Rightarrow> addr) \<Rightarrow> type_info \<Rightarrow> addr \<Rightarrow> heap_state \<Rightarrow> error + addr \<times> heap_state \<times> event list" where
  "make usr alloc new_storage T ret h =
     (case allocate usr alloc new_storage T 1 ret h of
        Inl e \<Rightarrow> Inl e
      | Inr (a, h', evs) \<Rightarrow>
          if a \<noteq> 0
          then (case construct usr T a h' of
                  Inl e \<Rightarrow> Inl e
                | Inr (h'', evs') \<Rightarrow> Inr (a, h'', evs @ evs'))
          else Inr (a, h', evs))"

definition make_array :: "dtor_code \<Rightarrow> page_allocate \<Rightarrow> (heap_state \<Rightarrow> nat \<Rightarrow> addr) \<Rightarrow> type_info \<Rightarrow> nat \<Rightarrow> addr \<Rightarrow> heap_state \<Rightarrow> error + addr \<times> heap_state \<times> event list" where
  "make_array usr alloc new_storage T n ret h =
     (case allocate usr alloc new_storage T n ret h of
        Inl e \<Rightarrow> Inl e
      | Inr (a, h', evs) \<Rightarrow>
          if a \<noteq> 0
          then (case construct_array usr T a n h' of
                  Inl e \<Rightarrow> Inl e
                | Inr (h'', evs') \<Rightarrow> Inr (a, h'', evs @ evs'))
          else Inr (a, h', evs))"

section \<open>Properties of the registry\<close>

text \<open>
  The entries that \<open>run(begin, end)\<close> is about, the destructor calls that one entry
  stands for, and the registry after user code has run a sequence of calls.
\<close>

definition in_range :: "addr \<Rightarrow> addr \<Rightarrow> destructor \<Rightarrow> bool" where
  "in_range b e d = (b \<le> dtor_p d \<and> dtor_p d < e)"

definition calls_of :: "destructor \<Rightarrow> call_log" where
  "calls_of d = map (\<lambda>i. (dtor_destroy d, dtor_p d + dtor_size d * i)) [0..<dtor_n d]"

definition replay :: "user_code \<Rightarrow> call_log \<Rightarrow> destructor list \<Rightarrow> destructor list" where
  "replay usr calls ds = foldl (\<lambda>r c. usr (fst c) (snd c) r) ds calls"

lemma move_range_eq:
  "move_range b e ds (td, r) =
     (td @ filter (in_range b e) ds, filter (\<lambda>d. \<not> in_range b e d) ds, r \<or> (\<exists>d\<in>set ds. in_range b e d))"
  by (induction ds arbitrary: td r) (auto simp: in_range_def)

lemma destroy_each_eq:
  "destroy_each usr d is (ds, calls) =
     (replay usr (map (\<lambda>i. (dtor_destroy d, dtor_p d + dtor_size d * i)) is) ds,
      calls @ map (\<lambda>i. (dtor_destroy d, dtor_p d + dtor_size d * i)) is)"
  by (induction "is" arbitrary: ds calls) (auto simp: replay_def)

lemma replay_append: "replay usr (xs @ ys) ds = replay usr ys (replay usr xs ds)"
  by (simp add: replay_def)

lemma destroy_all_eq:
  "destroy_all usr tds (ds, calls) =
     (replay usr (concat (map calls_of tds)) ds, calls @ concat (map calls_of tds))"
proof (induction tds arbitrary: ds calls)
  case Nil
  then show ?case by (simp add: replay_def)
next
  case (Cons d tds)
  show ?case
    by (simp add: destroy_each_eq Cons.IH replay_append calls_of_def)
qed

text \<open>
  C3. \<open>run(begin, end)\<close> takes out of the registry exactly the entries whose base lies
  in \<open>[begin, end)\<close>, and it has removed all of them before the first destructor is
  called: whatever the destructors do to the registry when they re-enter it, the first
  of them finds the registry without those entries, and the calls that are made are the
  calls \<open>destroy(p + size * i)\<close> for \<open>i < n\<close> of the removed entries, in their order.
  The result is true iff an entry was removed.
\<close>

theorem run_removes_then_destroys:
  assumes "b < e"
  shows "run usr b e ds =
           Inr ((\<exists>d\<in>set ds. in_range b e d),
                replay usr (concat (map calls_of (filter (in_range b e) ds)))
                  (filter (\<lambda>d. \<not> in_range b e d) ds),
                concat (map calls_of (filter (in_range b e) ds)))"
  using assms by (simp add: run_def move_range_eq destroy_all_eq)


theorem run_removes_then_destroys_witness:
  "(100::nat) < 200 \<and>
   run (\<lambda>f x r. r) 100 200
     [\<lparr>dtor_p = 100, dtor_size = 8, dtor_n = 2, dtor_destroy = 7\<rparr>,
      \<lparr>dtor_p = 300, dtor_size = 4, dtor_n = 1, dtor_destroy = 9\<rparr>,
      \<lparr>dtor_p = 196, dtor_size = 4, dtor_n = 1, dtor_destroy = 9\<rparr>] =
   Inr (True,
        [\<lparr>dtor_p = 300, dtor_size = 4, dtor_n = 1, dtor_destroy = 9\<rparr>],
        [(7, 100), (7, 108), (9, 196)])"
  using run_removes_then_destroys [of 100 200 "\<lambda>f x r. r"
     "[\<lparr>dtor_p = 100, dtor_size = 8, dtor_n = 2, dtor_destroy = 7\<rparr>,
      \<lparr>dtor_p = 300, dtor_size = 4, dtor_n = 1, dtor_destroy = 9\<rparr>,
      \<lparr>dtor_p = 196, dtor_size = 4, dtor_n = 1, dtor_destroy = 9\<rparr>]"]
  by (simp add: in_range_def calls_of_def replay_def upt_rec)

section \<open>The size of a new page\<close>

text \<open>A type of 8 bytes with a trivial destructor, for the examples.\<close>

definition T8 :: type_info where
  "T8 = \<lparr>sizeof = 8, trivially_destructible = True, dtor_of = 0\<rparr>"

declare bitlen.simps [simp del]

lemma bitlen_0: "bitlen 0 = 0"
  by (subst bitlen.simps) simp

lemma bitlen_pos: "0 < N \<Longrightarrow> bitlen N = Suc (bitlen (N div 2))"
  by (subst bitlen.simps) simp

lemma bitlen_le: "N < 2 ^ k \<Longrightarrow> bitlen N \<le> k"
proof (induction k arbitrary: N)
  case 0
  then show ?case by (simp add: bitlen_0)
next
  case (Suc k)
  show ?case
  proof (cases "N = 0")
    case True
    then show ?thesis by (simp add: bitlen_0)
  next
    case False
    have "N div 2 < 2 ^ k" using Suc.prems by simp
    then have "bitlen (N div 2) \<le> k" by (rule Suc.IH)
    with False show ?thesis by (simp add: bitlen_pos)
  qed
qed

lemma bitlen_eq: "2 ^ k \<le> N \<Longrightarrow> N < 2 ^ Suc k \<Longrightarrow> bitlen N = Suc k"
proof (induction k arbitrary: N)
  case 0
  then have "N = 1" by simp
  then show ?case by (simp add: bitlen_pos bitlen_0)
next
  case (Suc k)
  have pos: "0 < N" using Suc.prems(1) by (metis gr0I le_zero_eq power_eq_0_iff zero_neq_numeral)
  have "2 ^ k \<le> N div 2" using Suc.prems(1) by simp
  moreover have "N div 2 < 2 ^ Suc k" using Suc.prems(2) by simp
  ultimately have "bitlen (N div 2) = Suc k" by (rule Suc.IH)
  with pos show ?case by (simp add: bitlen_pos)
qed

lemma round53_small: "N < 2 ^ 53 \<Longrightarrow> round53 N = N"
  using bitlen_le [of N 53] by (simp add: round53_def Let_def)

lemma round53_ge:
  assumes "J * 2 ^ 51 \<le> N" and "N < 2 ^ 104"
  shows "J * 2 ^ 51 \<le> round53 N"
proof -
  define s where "s = bitlen N - 53"
  have "bitlen N \<le> 104" using assms(2) by (rule bitlen_le)
  then have s51: "s \<le> 51" by (simp add: s_def)
  show ?thesis
  proof (cases "s = 0")
    case True
    then show ?thesis using assms(1) by (simp add: round53_def Let_def s_def)
  next
    case False
    have split: "(2::nat) ^ 51 = 2 ^ (51 - s) * 2 ^ s"
      using s51 by (simp add: power_add [symmetric])
    have "J * 2 ^ (51 - s) * 2 ^ s \<le> N"
      using assms(1) split by (simp add: mult.assoc)
    then have "J * 2 ^ (51 - s) \<le> N div 2 ^ s"
      by (simp add: less_eq_div_iff_mult_less_eq)
    then have "J * 2 ^ (51 - s) * 2 ^ s \<le> N div 2 ^ s * 2 ^ s"
      by (rule mult_le_mono1)
    also have "\<dots> \<le> round53 N"
      using False by (simp add: round53_def Let_def s_def [symmetric])
    finally show ?thesis using split by (simp add: mult.assoc)
  qed
qed


lemma bitlen_gt: "N < 2 ^ bitlen N"
proof (induction N rule: less_induct)
  case (less N)
  show ?case
  proof (cases "N = 0")
    case True
    then show ?thesis by (simp add: bitlen_0)
  next
    case False
    then have "N div 2 < N" by simp
    then have "N div 2 < 2 ^ bitlen (N div 2)" by (rule less.IH)
    then have "N < 2 * 2 ^ bitlen (N div 2)" by linarith
    with False show ?thesis by (simp add: bitlen_pos)
  qed
qed

lemma round53_le:
  assumes "N < 2 ^ m"
  shows "round53 N \<le> 2 ^ m"
proof -
  define s where "s = bitlen N - 53"
  show ?thesis
  proof (cases "s = 0")
    case True
    then show ?thesis using assms by (simp add: round53_def Let_def s_def)
  next
    case False
    then have bl: "bitlen N = 53 + s" by (simp add: s_def)
    define P :: nat where "P = 2 ^ 53"
    have "N < P * 2 ^ s" using bitlen_gt [of N] by (simp add: bl power_add P_def)
    then have "N div 2 ^ s < P" by (simp add: less_mult_imp_div_less)
    then have "N div 2 ^ s + 1 \<le> P" by simp
    then have a: "(N div 2 ^ s + 1) * 2 ^ s \<le> P * 2 ^ s" by (rule mult_le_mono1)
    have b: "round53 N \<le> (N div 2 ^ s + 1) * 2 ^ s"
      using False by (simp add: round53_def Let_def s_def [symmetric])
    from b a have "round53 N \<le> P * 2 ^ s" by (rule order_trans)
    also have "P * 2 ^ s = 2 ^ bitlen N" by (simp only: bl power_add P_def)
    also have "\<dots> \<le> 2 ^ m" using bitlen_le [OF assms] by simp
    finally show ?thesis .
  qed
qed

lemma times_262_bounds:
  assumes "k < 2 ^ 51"
  shows "262 * k div 100 \<le> times_262 k div 2 ^ 51" and "times_262 k div 2 ^ 51 < 2 ^ 64"
proof -
  have k53: "k < 2 ^ 53" using assms by simp
  have r: "round53 k = k" using k53 by (rule round53_small)
  have "k * double_262 < 2 ^ 51 * 2 ^ 53"
    using assms by (intro mult_strict_mono) (simp_all add: double_262_def)
  then have N: "k * double_262 < 2 ^ 104" by simp
  define J where "J = 262 * k div 100"
  have "J * 100 \<le> 262 * k" by (simp add: J_def)
  then have J: "J * 2 ^ 51 \<le> k * double_262" by (simp add: double_262_def)
  have "J * 2 ^ 51 \<le> round53 (k * double_262)" using J N by (rule round53_ge)
  then show "262 * k div 100 \<le> times_262 k div 2 ^ 51"
    by (simp add: times_262_def r less_eq_div_iff_mult_less_eq J_def)
  have "round53 (k * double_262) \<le> 2 ^ 104" using N by (rule round53_le)
  then have "round53 (k * double_262) div 2 ^ 51 \<le> 2 ^ 104 div 2 ^ 51" by (rule div_le_mono)
  also have "\<dots> < (2::nat) ^ 64" by simp
  finally show "times_262 k div 2 ^ 51 < 2 ^ 64" by (simp add: times_262_def r)
qed

lemma round53_8168: "round53 8168 = 8168"
  by (rule round53_small) simp

lemma bitlen_8168: "bitlen (8168 * double_262) = 66"
proof -
  have "bitlen (8168 * double_262) = Suc 65"
    by (rule bitlen_eq) (simp_all add: double_262_def)
  then show ?thesis by simp
qed

lemma times_262_8168: "times_262 8168 div 2 ^ 51 = 21400"
  unfolding times_262_def round53_8168
  by (simp add: round53_def bitlen_8168 Let_def) (simp add: double_262_def)


text \<open>
  C6, as the code has it. A page that \<open>allocate<T>(n)\<close> appends for a request of less
  than \<open>2 ^ 51\<close> bytes has a total size of at least \<open>floor (2.62 * n * sizeof(T))\<close>
  bytes, which is room for \<open>floor (2.62 * n)\<close> objects of type \<open>T\<close>, and of at least
  4096 bytes; its minimum chunk size is \<open>max(sizeof(T), 4)\<close>.
\<close>

theorem new_page_size:
  assumes "sizeof T * n < 2 ^ 51"
  shows "\<exists>pg. dhpage_new T n new_storage = Inr pg \<and>
           262 * (sizeof T * n) div 100 \<le> total_size (page pg) \<and>
           262 * n div 100 * sizeof T \<le> total_size (page pg) \<and>
           4096 \<le> total_size (page pg) \<and>
           min_alloc (page pg) = max (sizeof T) 4"
proof -
  let ?k = "sizeof T * n"
  let ?x = "times_262 ?k div 2 ^ 51"
  have m: "?k mod 2 ^ 64 = ?k" using assms by simp
  have b: "262 * ?k div 100 \<le> ?x" "?x < 2 ^ 64" using assms by (rule times_262_bounds)+
  define A where "A = 262 * n div 100"
  have "A * 100 \<le> 262 * n" by (simp add: A_def)
  then have "A * 100 * sizeof T \<le> 262 * n * sizeof T" by (rule mult_le_mono1)
  moreover have "A * sizeof T * 100 = A * 100 * sizeof T"
    by (metis mult.assoc mult.commute)
  moreover have "262 * n * sizeof T = 262 * ?k"
    by (metis mult.assoc mult.commute)
  ultimately have "A * sizeof T * 100 \<le> 262 * ?k" by (simp only:)
  moreover have "0 < (100::nat)" by simp
  ultimately have "A * sizeof T \<le> 262 * ?k div 100"
    by (simp only: less_eq_div_iff_mult_less_eq)
  with b(1) have c: "262 * n div 100 * sizeof T \<le> ?x" by (simp add: A_def)
  have pt: "page_total_size T n = Inr (max ?x 4096)"
    unfolding page_total_size_def Let_def m using b(2) by simp
  show ?thesis
    using b(1) c
    by (simp add: dhpage_new_def pt Let_def gpage_new_def page_min_alloc_def le_max_iff_disj)
qed

theorem new_page_size_witness:
  "sizeof T8 * 1021 < 2 ^ 51 \<and>
   (\<exists>pg. dhpage_new T8 1021 (\<lambda>sz. 65536) = Inr pg \<and>
      262 * (sizeof T8 * 1021) div 100 \<le> total_size (page pg) \<and>
      262 * 1021 div 100 * sizeof T8 \<le> total_size (page pg) \<and>
      4096 \<le> total_size (page pg) \<and>
      min_alloc (page pg) = max (sizeof T8) 4)"
proof -
  have h: "sizeof T8 * 1021 < 2 ^ 51" by (simp add: T8_def)
  from new_page_size [OF h] h show ?thesis by blast
qed

text \<open>
  C6, as the claim states it, fails: the conversion to \<open>size_t\<close> truncates. For 1021
  objects of 8 bytes the page has 21400 bytes, less than the 21408 bytes of
  \<open>ceiling (2.62 * 1021) = 2676\<close> objects.
\<close>

theorem new_page_size_counterexample:
  "(case dhpage_new T8 1021 (\<lambda>sz. 65536) of
      Inl e \<Rightarrow> False
    | Inr pg \<Rightarrow> total_size (page pg) = 21400 \<and> min_alloc (page pg) = 8) \<and>
   (21400::nat) < (262 * 1021 + 99) div 100 * 8"
proof -
  have "page_total_size T8 1021 = Inr 21400"
    unfolding page_total_size_def Let_def T8_def using times_262_8168 by simp
  then show ?thesis
    by (simp add: dhpage_new_def Let_def gpage_new_def page_min_alloc_def T8_def)
qed


section \<open>Marking\<close>

text \<open>
  What one call of \<open>mark\<close> at level \<open>L\<close> can change: nothing but mark bits, which it
  sets, and levels, which it changes from 0 to \<open>L\<close>.
\<close>

definition all_levels :: "heap_state \<Rightarrow> nat list" where
  "all_levels h = concat (map (\<lambda>pg. map level (deferred_ptrs pg)) (pages h))"

definition rec_step :: "nat \<Rightarrow> nonroot \<Rightarrow> nonroot \<Rightarrow> bool" where
  "rec_step L dp dp' \<longleftrightarrow>
     ptr dp' = ptr dp \<and> (level dp' = level dp \<or> (level dp = 0 \<and> level dp' = L))"

definition page_step :: "nat \<Rightarrow> dhpage \<Rightarrow> dhpage \<Rightarrow> bool" where
  "page_step L pg pg' \<longleftrightarrow>
     page pg' = page pg \<and> length (live_starts pg') = length (live_starts pg) \<and>
     (\<forall>i. get_bit (live_starts pg) i \<longrightarrow> get_bit (live_starts pg') i) \<and>
     list_all2 (rec_step L) (deferred_ptrs pg) (deferred_ptrs pg')"

definition heap_step :: "nat \<Rightarrow> heap_state \<Rightarrow> heap_state \<Rightarrow> bool" where
  "heap_step L h h' \<longleftrightarrow>
     list_all2 (page_step L) (pages h) (pages h') \<and> roots h' = roots h \<and>
     dtors h' = dtors h \<and> raw h' = raw h \<and> is_destroying h' = is_destroying h \<and>
     collect_before_expand h' = collect_before_expand h"

lemma rec_step_refl: "rec_step L dp dp"
  by (simp add: rec_step_def)

lemma rec_step_trans: "rec_step L a b \<Longrightarrow> rec_step L b c \<Longrightarrow> rec_step L a c"
  by (auto simp: rec_step_def)

lemma recs_refl: "list_all2 (rec_step L) xs xs"
  by (simp add: list_all2_refl rec_step_refl)

lemma recs_trans:
  "list_all2 (rec_step L) xs ys \<Longrightarrow> list_all2 (rec_step L) ys zs \<Longrightarrow> list_all2 (rec_step L) xs zs"
  by (rule list_all2_trans [of "rec_step L" "rec_step L"]) (auto intro: rec_step_trans)

lemma page_step_refl: "page_step L pg pg"
  by (simp add: page_step_def recs_refl)

lemma page_step_trans: "page_step L a b \<Longrightarrow> page_step L b c \<Longrightarrow> page_step L a c"
  by (auto simp: page_step_def intro: recs_trans)

lemma pages_refl: "list_all2 (page_step L) xs xs"
  by (simp add: list_all2_refl page_step_refl)

lemma pages_trans:
  "list_all2 (page_step L) xs ys \<Longrightarrow> list_all2 (page_step L) ys zs \<Longrightarrow> list_all2 (page_step L) xs zs"
  by (rule list_all2_trans [of "page_step L" "page_step L"]) (auto intro: page_step_trans)

lemma heap_step_refl: "heap_step L h h"
  by (simp add: heap_step_def pages_refl)

lemma heap_step_trans: "heap_step L a b \<Longrightarrow> heap_step L b c \<Longrightarrow> heap_step L a c"
  by (auto simp: heap_step_def intro: pages_trans)

lemma mark_ptrs_step:
  "mark_ptrs g sl L dps = Inr dps' \<Longrightarrow> list_all2 (rec_step L) dps dps'"
proof (induction dps arbitrary: dps')
  case Nil
  then show ?case by simp
next
  case (Cons dp dps)
  then show ?case
    by (auto simp: Let_def rec_step_def split: if_splits sum.splits)
qed

lemma get_bit_set_bit: "get_bit bs i \<Longrightarrow> get_bit (set_bit bs j True) i"
  by (cases "i = j") (auto simp: get_bit_def set_bit_def)

lemma mark_pages_step:
  "mark_pages a L pgs = Inr pgs' \<Longrightarrow> list_all2 (page_step L) pgs pgs'"
proof (induction pgs arbitrary: pgs')
  case Nil
  then show ?case by simp
next
  case (Cons pg pgs)
  show ?case
  proof (cases "found (contains_info (page pg) a) = not_in_range")
    case True
    with Cons.prems obtain r where r: "mark_pages a L pgs = Inr r" and e: "pgs' = pg # r"
      by (auto simp: Let_def split: sum.splits)
    from Cons.IH [OF r] e show ?thesis by (simp add: page_step_refl)
  next
    case False
    with Cons.prems obtain dps where
      d: "mark_ptrs (page pg) (start_location (contains_info (page pg) a)) L (deferred_ptrs pg) = Inr dps"
      and e: "pgs' = pg\<lparr>live_starts := set_bit (live_starts pg)
                 (start_location (contains_info (page pg) a)) True, deferred_ptrs := dps\<rparr> # pgs"
      by (auto simp: Let_def split: if_splits sum.splits)
    have "page_step L pg (pg\<lparr>live_starts := set_bit (live_starts pg)
                 (start_location (contains_info (page pg) a)) True, deferred_ptrs := dps\<rparr>)"
      using mark_ptrs_step [OF d] by (simp add: page_step_def get_bit_set_bit) (simp add: set_bit_def)
    with e show ?thesis by (simp add: pages_refl)
  qed
qed

lemma mark_step: "mark a L h = Inr h' \<Longrightarrow> heap_step L h h'"
  by (auto simp: mark_def heap_step_def pages_refl dest: mark_pages_step split: if_splits sum.splits)


definition raised :: "nat \<Rightarrow> nat \<Rightarrow> nat \<Rightarrow> bool" where
  "raised L l l' \<longleftrightarrow> l' = l \<or> (l = 0 \<and> l' = L)"

lemma concat_all2:
  "list_all2 (list_all2 R) xss yss \<Longrightarrow> list_all2 R (concat xss) (concat yss)"
  by (induction rule: list_all2_induct) (simp_all add: list_all2_appendI)

lemma heap_step_levels:
  assumes "heap_step L h h'"
  shows "list_all2 (raised L) (all_levels h) (all_levels h')"
proof -
  have pg: "list_all2 (page_step L) (pages h) (pages h')"
    using assms by (simp add: heap_step_def)
  have "list_all2 (\<lambda>pg pg'. list_all2 (raised L) (map level (deferred_ptrs pg))
                     (map level (deferred_ptrs pg'))) (pages h) (pages h')"
    using pg
  proof (rule list_all2_mono)
    fix pg pg'
    assume "page_step L pg pg'"
    then have "list_all2 (rec_step L) (deferred_ptrs pg) (deferred_ptrs pg')"
      by (simp add: page_step_def)
    then have "list_all2 (\<lambda>dp dp'. raised L (level dp) (level dp')) (deferred_ptrs pg) (deferred_ptrs pg')"
      by (rule list_all2_mono) (simp add: rec_step_def raised_def)
    then show "list_all2 (raised L) (map level (deferred_ptrs pg)) (map level (deferred_ptrs pg'))"
      by (simp add: list_all2_map1 list_all2_map2)
  qed
  then have "list_all2 (list_all2 (raised L))
               (map (\<lambda>pg. map level (deferred_ptrs pg)) (pages h))
               (map (\<lambda>pg. map level (deferred_ptrs pg)) (pages h'))"
    by (simp add: list_all2_map1 list_all2_map2)
  then show ?thesis unfolding all_levels_def by (rule concat_all2)
qed

lemma heap_step_pages: "heap_step L h h' \<Longrightarrow> list_all2 (page_step L) (pages h) (pages h')"
  by (simp add: heap_step_def)


lemma heap_step_page:
  assumes "heap_step L h h'" and "k < length (pages h)"
  shows "page_step L (pages h ! k) (pages h' ! k)"
  using heap_step_pages [OF assms(1)] assms(2) by (rule list_all2_nthD)

lemma page_step_ptrs:
  "page_step L pg pg' \<Longrightarrow> list_all2 (rec_step L) (deferred_ptrs pg) (deferred_ptrs pg')"
  by (simp add: page_step_def)

lemma heap_step_ptrs_length:
  assumes "heap_step L h h'" and "k < length (pages h)"
  shows "length (deferred_ptrs (pages h' ! k)) = length (deferred_ptrs (pages h ! k))"
proof -
  have "length (deferred_ptrs (pages h ! k)) = length (deferred_ptrs (pages h' ! k))"
    using page_step_ptrs [OF heap_step_page [OF assms]] by (rule list_all2_lengthD)
  then show ?thesis by simp
qed

lemma heap_step_rec:
  assumes "heap_step L h h'" and "k < length (pages h)"
    and "j < length (deferred_ptrs (pages h ! k))"
  shows "rec_step L (deferred_ptrs (pages h ! k) ! j) (deferred_ptrs (pages h' ! k) ! j)"
  using page_step_ptrs [OF heap_step_page [OF assms(1,2)]] assms(3) by (rule list_all2_nthD)

lemma level_in_all_levels:
  assumes "k < length (pages h)" and "j < length (deferred_ptrs (pages h ! k))"
  shows "level (deferred_ptrs (pages h ! k) ! j) \<in> set (all_levels h)"
proof -
  have a: "pages h ! k \<in> set (pages h)" using assms(1) by (rule nth_mem)
  have "deferred_ptrs (pages h ! k) ! j \<in> set (deferred_ptrs (pages h ! k))"
    using assms(2) by (rule nth_mem)
  then have b: "level (deferred_ptrs (pages h ! k) ! j) \<in> set (map level (deferred_ptrs (pages h ! k)))"
    by simp
  have "set (map level (deferred_ptrs (pages h ! k))) \<subseteq> set (all_levels h)"
    unfolding all_levels_def using a by auto
  with b show ?thesis by (rule rev_subsetD)
qed

lemma mark_level_ptrs_step:
  "mark_level_ptrs L k js (dn, h) = Inr (dn', h') \<Longrightarrow> heap_step L h h'"
proof (induction js arbitrary: dn h)
  case Nil
  then show ?case by (simp add: heap_step_refl)
next
  case (Cons j js)
  show ?case
  proof (cases "level (deferred_ptrs (pages h ! k) ! j) = L - 1")
    case True
    with Cons.prems obtain h1 where m: "mark (raw h (ptr (deferred_ptrs (pages h ! k) ! j))) L h = Inr h1"
      and r: "mark_level_ptrs L k js (False, h1) = Inr (dn', h')"
      by (auto simp: Let_def split: sum.splits)
    from mark_step [OF m] Cons.IH [OF r] show ?thesis by (rule heap_step_trans)
  next
    case False
    with Cons.prems have "mark_level_ptrs L k js (dn, h) = Inr (dn', h')"
      by (simp add: Let_def)
    then show ?thesis by (rule Cons.IH)
  qed
qed

lemma mark_level_ptrs_found:
  assumes "mark_level_ptrs L k js (dn, h) = Inr (dn', h')"
    and "heap_step L h0 h" and "k < length (pages h0)"
    and "\<forall>j\<in>set js. j < length (deferred_ptrs (pages h0 ! k))"
    and "0 < L" and "dn \<or> L - 1 \<in> set (all_levels h0)"
  shows "dn' \<or> L - 1 \<in> set (all_levels h0)"
  using assms
proof (induction js arbitrary: dn h)
  case Nil
  then show ?case by simp
next
  case (Cons j js)
  show ?case
  proof (cases "level (deferred_ptrs (pages h ! k) ! j) = L - 1")
    case True
    have j: "j < length (deferred_ptrs (pages h0 ! k))" using Cons.prems(4) by simp
    have "rec_step L (deferred_ptrs (pages h0 ! k) ! j) (deferred_ptrs (pages h ! k) ! j)"
      using Cons.prems(2,3) j by (rule heap_step_rec)
    with True \<open>0 < L\<close> have "level (deferred_ptrs (pages h0 ! k) ! j) = L - 1"
      by (auto simp: rec_step_def)
    then have "L - 1 \<in> set (all_levels h0)"
      using level_in_all_levels [OF Cons.prems(3) j] by simp
    then show ?thesis by simp
  next
    case False
    with Cons.prems(1) have r: "mark_level_ptrs L k js (dn, h) = Inr (dn', h')"
      by (simp add: Let_def)
    show ?thesis
      using r Cons.prems(2,3) _ Cons.prems(5,6) by (rule Cons.IH) (use Cons.prems(4) in simp)
  qed
qed

lemma mark_level_pages_step:
  "mark_level_pages L ks (dn, h) = Inr (dn', h') \<Longrightarrow> heap_step L h h'"
proof (induction ks arbitrary: dn h)
  case Nil
  then show ?case by (simp add: heap_step_refl)
next
  case (Cons k ks)
  from Cons.prems obtain d1 h1 where
    a: "mark_level_ptrs L k [0..<length (deferred_ptrs (pages h ! k))] (dn, h) = Inr (d1, h1)"
    and b: "mark_level_pages L ks (d1, h1) = Inr (dn', h')"
    by (auto split: sum.splits)
  from mark_level_ptrs_step [OF a] Cons.IH [OF b] show ?case by (rule heap_step_trans)
qed

lemma mark_level_pages_found:
  assumes "mark_level_pages L ks (dn, h) = Inr (dn', h')"
    and "heap_step L h0 h" and "\<forall>k\<in>set ks. k < length (pages h0)"
    and "0 < L" and "dn \<or> L - 1 \<in> set (all_levels h0)"
  shows "dn' \<or> L - 1 \<in> set (all_levels h0)"
  using assms
proof (induction ks arbitrary: dn h)
  case Nil
  then show ?case by simp
next
  case (Cons k ks)
  from Cons.prems(1) obtain d1 h1 where
    a: "mark_level_ptrs L k [0..<length (deferred_ptrs (pages h ! k))] (dn, h) = Inr (d1, h1)"
    and b: "mark_level_pages L ks (d1, h1) = Inr (dn', h')"
    by (auto split: sum.splits)
  have k: "k < length (pages h0)" using Cons.prems(3) by simp
  have len: "length (deferred_ptrs (pages h ! k)) = length (deferred_ptrs (pages h0 ! k))"
    using Cons.prems(2) k by (rule heap_step_ptrs_length)
  have d1: "d1 \<or> L - 1 \<in> set (all_levels h0)"
    using a Cons.prems(2) k _ Cons.prems(4,5) by (rule mark_level_ptrs_found) (simp add: len)
  have s1: "heap_step L h0 h1"
    using Cons.prems(2) mark_level_ptrs_step [OF a] by (rule heap_step_trans)
  show ?case
    using b s1 _ Cons.prems(4) d1 by (rule Cons.IH) (use Cons.prems(3) in simp)
qed

lemma mark_level_step: "mark_level L h = Inr (dn, h') \<Longrightarrow> heap_step L h h'"
  unfolding mark_level_def by (rule mark_level_pages_step)

lemma mark_level_found:
  assumes "mark_level L h = Inr (dn, h')" and "0 < L" and "\<not> dn"
  shows "L - 1 \<in> set (all_levels h)"
proof -
  have "dn \<or> L - 1 \<in> set (all_levels h)"
    using assms(1) [unfolded mark_level_def] heap_step_refl [of L h] _ assms(2)
    by (rule mark_level_pages_found) simp_all
  with assms(3) show ?thesis by simp
qed

lemma filter_count_le:
  "list_all2 R xs ys \<Longrightarrow> (\<And>x y. R x y \<Longrightarrow> Q y \<Longrightarrow> P x) \<Longrightarrow>
   length (filter Q ys) \<le> length (filter P xs)"
  by (induction rule: list_all2_induct) auto

lemma filter_count_less:
  "list_all2 R xs ys \<Longrightarrow> (\<And>x y. R x y \<Longrightarrow> Q y \<Longrightarrow> P x) \<Longrightarrow>
   \<exists>x\<in>set xs. P x \<and> (\<forall>y. R x y \<longrightarrow> \<not> Q y) \<Longrightarrow>
   length (filter Q ys) < length (filter P xs)"
proof (induction rule: list_all2_induct)
  case Nil
  then show ?case by simp
next
  case (Cons x xs y ys)
  have le: "length (filter Q ys) \<le> length (filter P xs)"
    using Cons.hyps(2) Cons.prems(1) by (rule filter_count_le)
  show ?case
  proof (cases "P x \<and> \<not> Q y")
    case True
    with le show ?thesis by simp
  next
    case False
    with Cons.prems(2) Cons.hyps(1) have "\<exists>x\<in>set xs. P x \<and> (\<forall>y. R x y \<longrightarrow> \<not> Q y)"
      by auto
    with Cons.IH Cons.prems(1) have "length (filter Q ys) < length (filter P xs)" by blast
    with False Cons.hyps(1) Cons.prems(1) show ?thesis by auto
  qed
qed

definition unsettled :: "nat \<Rightarrow> heap_state \<Rightarrow> nat" where
  "unsettled lvl h =
     (if lvl = 0 then Suc (length (all_levels h))
      else length (filter (\<lambda>l. l = 0 \<or> lvl \<le> l) (all_levels h)))"

lemma unsettled_decreases:
  assumes "mark_level (lvl + 1) h = Inr (False, h')"
  shows "unsettled (lvl + 1) h' < unsettled lvl h"
proof -
  have st: "list_all2 (raised (lvl + 1)) (all_levels h) (all_levels h')"
    using assms by (intro heap_step_levels mark_level_step)
  have f: "lvl \<in> set (all_levels h)"
    using mark_level_found [OF assms] by simp
  show ?thesis
  proof (cases "lvl = 0")
    case True
    have "length (filter (\<lambda>l. l = 0 \<or> 1 \<le> l) (all_levels h')) \<le> length (all_levels h')"
      by (rule length_filter_le)
    also have "\<dots> = length (all_levels h)"
      using st by (simp add: list_all2_lengthD)
    finally show ?thesis using True by (simp add: unsettled_def)
  next
    case False
    have "length (filter (\<lambda>l. l = 0 \<or> lvl + 1 \<le> l) (all_levels h'))
            < length (filter (\<lambda>l. l = 0 \<or> lvl \<le> l) (all_levels h))"
      using st
    proof (rule filter_count_less)
      show "\<And>x y. raised (lvl + 1) x y \<Longrightarrow> y = 0 \<or> lvl + 1 \<le> y \<Longrightarrow> x = 0 \<or> lvl \<le> x"
        by (auto simp: raised_def)
      show "\<exists>x\<in>set (all_levels h). (x = 0 \<or> lvl \<le> x) \<and>
              (\<forall>y. raised (lvl + 1) x y \<longrightarrow> \<not> (y = 0 \<or> lvl + 1 \<le> y))"
        using f False by (intro bexI [of _ lvl]) (auto simp: raised_def)
    qed
    with False show ?thesis by (simp add: unsettled_def)
  qed
qed

termination mark_loop
  by (relation "measure (\<lambda>(lvl, h). unsettled lvl h)") (auto intro: unsettled_decreases [simplified])


declare mark_loop.simps [simp del]

lemma mark_roots_step: "mark_roots rs L h = Inr h' \<Longrightarrow> heap_step L h h'"
proof (induction rs arbitrary: h)
  case Nil
  then show ?case by (simp add: heap_step_refl)
next
  case (Cons r rs)
  from Cons.prems obtain h1 where a: "mark (raw h r) L h = Inr h1"
    and b: "mark_roots rs L h1 = Inr h'"
    by (auto split: sum.splits)
  from mark_step [OF a] Cons.IH [OF b] show ?case by (rule heap_step_trans)
qed

lemma all_levels_reset_marks: "length (all_levels (reset_marks h)) = length (all_levels h)"
  by (simp add: all_levels_def reset_marks_def length_concat comp_def)

lemma heap_step_levels_length:
  "heap_step L h h' \<Longrightarrow> length (all_levels h') = length (all_levels h)"
  using heap_step_levels [THEN list_all2_lengthD] by metis

lemma mark_loop_bound:
  "mark_loop lvl h = Inr (lvl', h') \<Longrightarrow> lvl < lvl' \<and> lvl' \<le> lvl + 1 + unsettled lvl h"
proof (induction lvl h rule: mark_loop.induct)
  case (1 lvl h)
  from "1.prems" obtain dn h1 where a: "mark_level (lvl + 1) h = Inr (dn, h1)"
    by (subst (asm) mark_loop.simps) (auto split: sum.splits)
  show ?case
  proof (cases dn)
    case True
    with "1.prems" a show ?thesis by (subst (asm) mark_loop.simps) simp
  next
    case False
    with "1.prems" a have b: "mark_loop (lvl + 1) h1 = Inr (lvl', h')"
      by (subst (asm) mark_loop.simps) simp
    have "lvl + 1 < lvl' \<and> lvl' \<le> lvl + 1 + 1 + unsettled (lvl + 1) h1"
      using a False b by (intro "1.IH") auto
    moreover have "unsettled (lvl + 1) h1 < unsettled lvl h"
      using a False by (intro unsettled_decreases) simp
    ultimately show ?thesis by simp
  qed
qed

lemma unsettled_le: "0 < lvl \<Longrightarrow> unsettled lvl h \<le> length (all_levels h)"
  by (simp add: unsettled_def)

lemma mark_phase_bound:
  assumes "mark_phase h = Inr (lvl, h')"
  shows "2 \<le> lvl \<and> lvl - 1 \<le> length (all_levels h) + 1"
proof -
  from assms obtain h1 where a: "mark_roots (roots (reset_marks h)) 1 (reset_marks h) = Inr h1"
    and b: "mark_loop 1 h1 = Inr (lvl, h')"
    by (auto simp: mark_phase_def split: sum.splits)
  have "length (all_levels h1) = length (all_levels h)"
    using heap_step_levels_length [OF mark_roots_step [OF a]] by (simp add: all_levels_reset_marks)
  moreover have "unsettled 1 h1 \<le> length (all_levels h1)" by (rule unsettled_le) simp
  moreover have "1 < lvl \<and> lvl \<le> 1 + 1 + unsettled 1 h1" using b by (rule mark_loop_bound)
  ultimately show ?thesis by arith
qed

text \<open>A node of 1024 bytes that holds one tracked pointer, which points to the node itself;
  a root points to the node.\<close>

definition node_page :: "bool \<Rightarrow> nat \<Rightarrow> dhpage" where
  "node_page b l =
     \<lparr>page = \<lparr>storage = 4096, total_size = 4096, min_alloc = 1024,
              state = [AllocatedStart, Unallocated, Unallocated, Unallocated]\<rparr>,
      live_starts = [b, False, False, False],
      deferred_ptrs = [\<lparr>ptr = 4096, level = l\<rparr>]\<rparr>"

definition self_cycle :: "bool \<Rightarrow> nat \<Rightarrow> heap_state" where
  "self_cycle b l =
     \<lparr>pages = [node_page b l], roots = [100], dtors = [], is_destroying = False,
      collect_before_expand = False, raw = (\<lambda>a. if a = 100 \<or> a = 4096 then 4096 else 0)\<rparr>"

lemma node_info:
  "contains_info \<lparr>storage = 4096, total_size = 4096, min_alloc = 1024,
              state = [AllocatedStart, Unallocated, Unallocated, Unallocated]\<rparr> 4096
   = \<lparr>found = in_range_allocated_start, start_location = 0\<rparr>"
  by (simp add: contains_info_def contains_def state_at_def)

lemma self_cycle_roots:
  "mark_roots (roots (reset_marks (self_cycle False 0))) 1 (reset_marks (self_cycle False 0))
     = Inr (self_cycle True 1)"
  by (simp add: self_cycle_def node_page_def reset_marks_def set_all_def mark_def node_info set_bit_def)

lemma self_cycle_pass2: "mark_level (1 + 1) (self_cycle True 1) = Inr (False, self_cycle True 1)"
  by (simp add: self_cycle_def node_page_def mark_level_def mark_def node_info set_bit_def)

lemma self_cycle_pass3: "mark_level (2 + 1) (self_cycle True 1) = Inr (True, self_cycle True 1)"
  by (simp add: self_cycle_def node_page_def mark_level_def)

text \<open>
  C7, as the code has it. The marking loop always terminates (\<open>mark_loop\<close> is a total
  function): \<open>mark_phase\<close> either stops at a failed assertion or returns, and then the
  number of passes, \<open>level - 1\<close> at the exit, is at most \<open>K + 1\<close> for \<open>K\<close> non-root
  records. Every pass that is not the last one finds a record whose level is the
  previous level, and a pass changes a level only from 0 to its own level; it need not
  change any.
\<close>

theorem marking_passes_bounded:
  "(case mark_phase h of
      Inl e \<Rightarrow> True
    | Inr (lvl, h') \<Rightarrow> 2 \<le> lvl \<and> lvl - 1 \<le> length (all_levels h) + 1) \<and>
   (0 < L \<and> mark_level L h1 = Inr (False, h2) \<longrightarrow>
      L - 1 \<in> set (all_levels h1) \<and> list_all2 (raised L) (all_levels h1) (all_levels h2))"
proof (intro conjI impI)
  show "case mark_phase h of
      Inl e \<Rightarrow> True
    | Inr (lvl, h') \<Rightarrow> 2 \<le> lvl \<and> lvl - 1 \<le> length (all_levels h) + 1"
    using mark_phase_bound [of h] by (auto split: sum.splits)
next
  assume a: "0 < L \<and> mark_level L h1 = Inr (False, h2)"
  then show "L - 1 \<in> set (all_levels h1)" by (intro mark_level_found [of L h1 False h2]) simp_all
  from a show "list_all2 (raised L) (all_levels h1) (all_levels h2)"
    by (intro heap_step_levels mark_level_step [of L h1 False]) simp
qed

theorem marking_passes_bounded_witness:
  "(0::nat) < 2 \<and> mark_level 2 (self_cycle True 1) = Inr (False, self_cycle True 1) \<and>
   2 - 1 \<in> set (all_levels (self_cycle True 1)) \<and>
   list_all2 (raised 2) (all_levels (self_cycle True 1)) (all_levels (self_cycle True 1))"
  using marking_passes_bounded [of "self_cycle False 0" 2 "self_cycle True 1" "self_cycle True 1"]
    self_cycle_pass2 by (simp del: One_nat_def)

text \<open>
  C7, as the claim states it, fails on a node that points to itself and is pointed to by
  a root: the pass at level 2 is not the last one and assigns no level, and the loop
  makes two passes (\<open>level\<close> is 3 at the exit) for this cycle of one object.
\<close>

theorem marking_passes_counterexample:
  "mark_phase (self_cycle False 0) = Inr (3, self_cycle True 1) \<and>
   mark_level 2 (self_cycle True 1) = Inr (False, self_cycle True 1) \<and>
   all_levels (self_cycle False 0) = [0] \<and> all_levels (self_cycle True 1) = [1]"
proof -
  have e1: "(1::nat) + 1 = 2" and e2: "(2::nat) + 1 = 3" by simp_all
  have a: "mark_loop 2 (self_cycle True 1) = Inr (2 + 1, self_cycle True 1)"
    by (subst mark_loop.simps) (simp only: self_cycle_pass3 sum.case prod.case if_True)
  have b: "mark_loop 1 (self_cycle True 1) = mark_loop (1 + 1) (self_cycle True 1)"
    by (subst mark_loop.simps) (simp only: self_cycle_pass2 sum.case prod.case if_False)
  from b [unfolded e1] a [unfolded e2]
  have "mark_loop 1 (self_cycle True 1) = Inr (3, self_cycle True 1)" by (rule trans)
  then have "mark_phase (self_cycle False 0) = Inr (3, self_cycle True 1)"
    by (simp only: mark_phase_def self_cycle_roots sum.case)
  moreover have "mark_level 2 (self_cycle True 1) = Inr (False, self_cycle True 1)"
    using self_cycle_pass2 [unfolded e1] .
  moreover have "all_levels (self_cycle False 0) = [0] \<and> all_levels (self_cycle True 1) = [1]"
    by (simp add: all_levels_def self_cycle_def node_page_def)
  ultimately show ?thesis by (intro conjI) simp_all
qed


section \<open>Failed assertions\<close>

text \<open>Every error that a collection can end in is a failed assertion.\<close>

definition is_assertion :: "error \<Rightarrow> bool" where
  "is_assertion e = (case e of AssertionFailed m \<Rightarrow> True | UndefinedBehaviour m \<Rightarrow> False)"

lemma is_assertion_simp [simp]: "is_assertion (AssertionFailed m)"
  by (simp add: is_assertion_def)

lemma mark_ptrs_error: "mark_ptrs g sl L dps = Inl e \<Longrightarrow> is_assertion e"
  by (induction dps) (auto simp: Let_def split: if_splits sum.splits)

lemma mark_pages_error: "mark_pages a L pgs = Inl e \<Longrightarrow> is_assertion e"
  by (induction pgs) (auto simp: Let_def dest: mark_ptrs_error split: if_splits sum.splits)

lemma mark_error: "mark a L h = Inl e \<Longrightarrow> is_assertion e"
  by (auto simp: mark_def dest: mark_pages_error split: if_splits sum.splits)

lemma mark_roots_error: "mark_roots rs L h = Inl e \<Longrightarrow> is_assertion e"
  by (induction rs arbitrary: h) (auto dest: mark_error split: sum.splits)

lemma mark_level_ptrs_error: "mark_level_ptrs L k js st = Inl e \<Longrightarrow> is_assertion e"
proof (induction js arbitrary: st)
  case Nil
  then show ?case by simp
next
  case (Cons j js)
  obtain dn h where st: "st = (dn, h)" by (cases st)
  from Cons.prems show ?case unfolding st
    by (auto simp: Let_def dest: mark_error Cons.IH split: if_splits sum.splits)
qed

lemma mark_level_pages_error: "mark_level_pages L ks st = Inl e \<Longrightarrow> is_assertion e"
proof (induction ks arbitrary: st)
  case Nil
  then show ?case by simp
next
  case (Cons k ks)
  obtain dn h where st: "st = (dn, h)" by (cases st)
  from Cons.prems show ?case unfolding st
    by (auto dest: mark_level_ptrs_error Cons.IH split: sum.splits)
qed

lemma mark_level_error: "mark_level L h = Inl e \<Longrightarrow> is_assertion e"
  unfolding mark_level_def by (rule mark_level_pages_error)

lemma mark_loop_error: "mark_loop lvl h = Inl e \<Longrightarrow> is_assertion e"
proof (induction lvl h rule: mark_loop.induct)
  case (1 lvl h)
  show ?case
  proof (cases "mark_level (lvl + 1) h")
    case (Inl e')
    with "1.prems" have "e' = e" by (subst (asm) mark_loop.simps) simp
    with Inl show ?thesis by (auto dest: mark_level_error)
  next
    case (Inr st)
    obtain dn h1 where st: "st = (dn, h1)" by (cases st)
    from "1.prems" Inr st have dn: "\<not> dn" and l: "mark_loop (lvl + 1) h1 = Inl e"
      by (subst (asm) mark_loop.simps, simp split: if_splits)+
    from Inr st dn l show ?thesis by (intro "1.IH" [of "(dn, h1)" dn h1]) auto
  qed
qed

lemma mark_phase_error: "mark_phase h = Inl e \<Longrightarrow> is_assertion e"
  by (auto simp: mark_phase_def dest: mark_roots_error mark_loop_error split: sum.splits)

lemma run_error: "run usr b e ds = Inl err \<Longrightarrow> err = AssertionFailed ''begin must precede end''"
  by (auto simp: run_def split: if_splits prod.splits)

lemma enregister_error: "enregister a h = Inl e \<Longrightarrow> is_assertion e"
  by (auto simp: enregister_def split: if_splits option.splits)

lemma deregister_error: "deregister a h = Inl e \<Longrightarrow> is_assertion e"
  by (auto simp: deregister_def split: if_splits option.splits)

lemma perform_ptr_error: "perform_ptr op h = Inl e \<Longrightarrow> is_assertion e"
  by (cases op)
     (auto simp: ptr_construct_def pointer_to_def ptr_destroy_def
        dest: enregister_error deregister_error)

lemma perform_ptrs_error: "perform_ptrs ops h = Inl e \<Longrightarrow> is_assertion e"
  by (induction ops arbitrary: h) (auto dest: perform_ptr_error split: sum.splits)

lemma destroy_each_in_error: "destroy_each_in usr d is st = Inl e \<Longrightarrow> is_assertion e"
proof (induction "is" arbitrary: st)
  case Nil
  then show ?case by simp
next
  case (Cons i "is")
  obtain h evs where st: "st = (h, evs)" by (cases st)
  from Cons.prems show ?case unfolding st
    by (auto dest: perform_ptrs_error Cons.IH split: sum.splits)
qed

lemma destroy_all_in_error: "destroy_all_in usr ds st = Inl e \<Longrightarrow> is_assertion e"
  by (induction ds arbitrary: st) (auto dest: destroy_each_in_error split: sum.splits)

lemma destroy_objects_error: "destroy_objects usr b e h = Inl err \<Longrightarrow> is_assertion err"
  by (auto simp: destroy_objects_def dest: destroy_all_in_error
      split: if_splits prod.splits sum.splits)

lemma sweep_locations_error: "sweep_locations usr k is st = Inl e \<Longrightarrow> is_assertion e"
proof (induction "is" arbitrary: st)
  case Nil
  then show ?case by simp
next
  case (Cons i "is")
  obtain h evs where st: "st = (h, evs)" by (cases st)
  from Cons.prems show ?case unfolding st
    by (auto simp: Let_def dest: destroy_objects_error Cons.IH split: if_splits sum.splits)
qed

lemma sweep_pages_error: "sweep_pages usr ks st = Inl e \<Longrightarrow> is_assertion e"
proof (induction ks arbitrary: st)
  case Nil
  then show ?case by simp
next
  case (Cons k ks)
  obtain h evs where st: "st = (h, evs)" by (cases st)
  from Cons.prems show ?case unfolding st
    by (auto dest: sweep_locations_error Cons.IH split: sum.splits)
qed

lemma collect_error: "collect usr h = Inl e \<Longrightarrow> is_assertion e"
  by (auto simp: collect_def sweep_phase_def
      dest: mark_phase_error sweep_pages_error split: sum.splits prod.splits)

lemma round53_0: "round53 0 = 0"
  by (simp add: round53_def bitlen_0)

lemma page_total_size_0: "page_total_size T 0 = Inr 4096"
  by (simp add: page_total_size_def times_262_def round53_0)

lemma allocate_zero_error:
  assumes "allocate usr alloc new_storage T 0 ret h = Inl e"
  shows "is_assertion e"
  using assms
  by (auto simp: allocate_def allocate_retry_def allocate_expand_def dhpage_new_def
      page_total_size_0 ptr_construct_def Let_def
      dest: collect_error enregister_error split: prod.splits sum.splits if_splits)

lemma allocate_not_null:
  "allocate usr alloc new_storage T n ret h = Inr (a, h', evs) \<Longrightarrow> a \<noteq> 0"
  by (auto simp: allocate_def split: prod.splits sum.splits if_splits)

lemma construct_array_zero:
  "a \<noteq> 0 \<Longrightarrow> construct_array usr T a 0 h = Inl (AssertionFailed ''begin must precede end'')"
  by (simp add: construct_array_def destroy_objects_def)

text \<open>
  C10. \<open>run\<close> asserts that its range is not empty, and \<open>make_array<T>(0)\<close> always
  ends in a failed assertion: either \<open>allocate\<close> fails one (its own, or one of a
  collection that it starts), or it returns a pointer that is not null, and then
  \<open>construct_array\<close> passes the empty range \<open>[p, p + 0)\<close> to \<open>destroy_objects\<close>.
\<close>

theorem make_array_zero_fails:
  "run usr a a ds = Inl (AssertionFailed ''begin must precede end'') \<and>
   (\<exists>e. make_array dtr alloc new_storage T 0 ret h = Inl e \<and> is_assertion e)"
proof
  show "run usr a a ds = Inl (AssertionFailed ''begin must precede end'')"
    by (simp add: run_def)
  show "\<exists>e. make_array dtr alloc new_storage T 0 ret h = Inl e \<and> is_assertion e"
  proof (cases "allocate dtr alloc new_storage T 0 ret h")
    case (Inl e)
    then show ?thesis by (auto simp: make_array_def dest: allocate_zero_error)
  next
    case (Inr r)
    obtain a h' evs where r: "r = (a, h', evs)" by (cases r)
    from Inr r have "a \<noteq> 0" by (auto dest: allocate_not_null)
    with Inr r show ?thesis by (simp add: make_array_def construct_array_zero)
  qed
qed

section \<open>The pointer that make returns\<close>

text \<open>
  With assertions compiled in, \<open>allocate\<close> returns only when its pointer is not null,
  and so does \<open>make\<close>, whatever the pages answer.
\<close>

lemma make_not_null:
  "make usr alloc new_storage T ret h = Inr (a, h', evs) \<Longrightarrow> a \<noteq> 0"
  by (auto simp: make_def dest: allocate_not_null split: sum.splits prod.splits if_splits)

text \<open>The heap as \<open>deferred_heap() = default\<close> constructs it.\<close>

definition empty_heap :: heap_state where
  "empty_heap =
     \<lparr>pages = [], roots = [], dtors = [], is_destroying = False,
      collect_before_expand = False, raw = (\<lambda>a. 0)\<rparr>"

section \<open>Construction of arrays\<close>

text \<open>A type of 1024 bytes with a destructor that is not trivial.\<close>

definition Node :: type_info where
  "Node = \<lparr>sizeof = 1024, trivially_destructible = False, dtor_of = 1\<rparr>"

lemma construct_each_eq: "construct_each a is evs = evs @ replicate (length is) (Construct a)"
  by (induction "is" arbitrary: evs) (simp_all add: replicate_app_Cons_same)

text \<open>
  C1, on the code. \<open>construct_array(p, 2)\<close> calls the constructor twice at \<open>p\<close> and
  never at \<open>p + sizeof(T)\<close>, and then registers the entry \<open>{p, sizeof(T), 2}\<close>.
\<close>

theorem construct_array_same_address:
  "construct_array usr Node 4096 2 empty_heap =
     Inr (empty_heap\<lparr>dtors := [\<lparr>dtor_p = 4096, dtor_size = 1024, dtor_n = 2, dtor_destroy = 1\<rparr>]\<rparr>,
          [Construct 4096, Construct 4096])"
  by (simp add: construct_array_def destroy_objects_def store_def Node_def
      empty_heap_def construct_each_eq numeral_2_eq_2)


section \<open>Collection: what is reset before the destructors run\<close>




definition tracked :: "heap_state \<Rightarrow> addr set" where
  "tracked h = set (roots h) \<union> (\<Union>pg\<in>set (pages h). ptr ` set (deferred_ptrs pg))"





























definition ptrs_of :: "heap_state \<Rightarrow> addr list list" where
  "ptrs_of h = map (\<lambda>pg. map ptr (deferred_ptrs pg)) (pages h)"


lemma tracked_alt: "tracked h = set (roots h) \<union> set (concat (ptrs_of h))"
  by (auto simp: tracked_def ptrs_of_def)










definition same_heap :: "heap_state \<Rightarrow> heap_state \<Rightarrow> bool" where
  "same_heap h h' \<longleftrightarrow>
     ptrs_of h' = ptrs_of h \<and> map page (pages h') = map page (pages h) \<and>
     roots h' = roots h \<and> raw h' = raw h \<and> dtors h' = dtors h"















lemma same_heap_tracked: "same_heap h h' \<Longrightarrow> tracked h' = tracked h"
  by (simp add: tracked_alt same_heap_def)
























































end
